theory Spec2Isabelle
  imports Complex_Main "HOL-Library.Log_Nat" "HOL-Library.Word" "HOL-Library.Multiset"
begin

section \<open>JavaScript numbers\<close>

text \<open>
  Every number of \<^verbatim>\<open>server.js\<close> is an IEEE-754 binary64 value. \<open>Fin m e\<close> is the finite
  double \<open>m * 2^e\<close>; the results of the arithmetic below carry an odd mantissa (or are
  \<open>Fin 0 0\<close>), have \<open>\<bar>m\<bar> < 2^53\<close> and \<open>- 1074 \<le> e\<close>. The sign of zero is not represented:
  the divisor in \<^verbatim>\<open>cosine\<close> is never a zero, and \<^verbatim>\<open>sort\<close> and \<^verbatim>\<open>slice\<close> do not tell the two
  zeros apart.
\<close>

datatype jsnum = Fin int int | PInf | NInf | NaN

text \<open>\<open>ilog2q a d\<close> is \<open>\<lfloor>log\<^sub>2 (a / d)\<rfloor>\<close> for positive \<open>a\<close> and \<open>d\<close>.\<close>

definition ilog2q :: "int \<Rightarrow> int \<Rightarrow> int" where
  "ilog2q a d = (let e0 = bitlen a - bitlen d in
     if d * 2 ^ nat e0 \<le> a * 2 ^ nat (- e0) then e0 else e0 - 1)"

text \<open>\<open>a / d\<close> rounded to the nearest integer, ties to the even one.\<close>

definition round_half_even :: "int \<Rightarrow> int \<Rightarrow> int" where
  "round_half_even a d = (let q = a div d; r = a mod d in
     if 2 * r < d then q else if d < 2 * r then q + 1 else if even q then q else q + 1)"

function norm2 :: "int \<Rightarrow> int \<Rightarrow> int \<times> int" where
  "norm2 m e = (if m \<noteq> 0 \<and> even m then norm2 (m div 2) (e + 1) else (m, e))"
  by pat_completeness auto
termination
  by (relation "measure (\<lambda>(m, e). nat \<bar>m\<bar>)") auto

declare norm2.simps [simp del]

text \<open>A positive rounded mantissa on its grid \<open>2^g\<close>: overflow is \<open>2^1024\<close> and above.\<close>

definition pack :: "int \<Rightarrow> int \<Rightarrow> jsnum" where
  "pack m g = (if m = 0 then Fin 0 0 else
     case norm2 m g of (m', g') \<Rightarrow> if 1024 < bitlen m' + g' then PInf else Fin m' g')"

text \<open>
  Round to nearest, ties to even, of the positive rational \<open>(n / d) * 2^e\<close>: the grid is
  \<open>2^g\<close> with 53 significant bits above it, and never finer than \<open>2^-1074\<close>.
\<close>

definition round_pos :: "int \<Rightarrow> int \<Rightarrow> int \<Rightarrow> jsnum" where
  "round_pos n d e = (let g = max (ilog2q n d + e - 52) (- 1074) in
     pack (round_half_even (n * 2 ^ nat (e - g)) (d * 2 ^ nat (g - e))) g)"

fun js_neg :: "jsnum \<Rightarrow> jsnum" where
  "js_neg (Fin m e) = Fin (- m) e"
| "js_neg PInf = NInf"
| "js_neg NInf = PInf"
| "js_neg NaN = NaN"

text \<open>The double nearest to \<open>(n / d) * 2^e\<close>, for \<open>d > 0\<close>.\<close>

definition round_quot :: "int \<Rightarrow> int \<Rightarrow> int \<Rightarrow> jsnum" where
  "round_quot n d e = (if n = 0 then Fin 0 0
     else if 0 < n then round_pos n d e else js_neg (round_pos (- n) d e))"

fun js_add :: "jsnum \<Rightarrow> jsnum \<Rightarrow> jsnum" where
  "js_add NaN y = NaN"
| "js_add x NaN = NaN"
| "js_add PInf NInf = NaN"
| "js_add NInf PInf = NaN"
| "js_add PInf y = PInf"
| "js_add NInf y = NInf"
| "js_add x PInf = PInf"
| "js_add x NInf = NInf"
| "js_add (Fin m1 e1) (Fin m2 e2) =
     (let e0 = min e1 e2 in
      round_quot (m1 * 2 ^ nat (e1 - e0) + m2 * 2 ^ nat (e2 - e0)) 1 e0)"

definition js_sub :: "jsnum \<Rightarrow> jsnum \<Rightarrow> jsnum" where
  "js_sub x y = js_add x (js_neg y)"

fun js_mul :: "jsnum \<Rightarrow> jsnum \<Rightarrow> jsnum" where
  "js_mul NaN y = NaN"
| "js_mul x NaN = NaN"
| "js_mul (Fin m1 e1) (Fin m2 e2) = round_quot (m1 * m2) 1 (e1 + e2)"
| "js_mul (Fin m e) PInf = (if m = 0 then NaN else if 0 < m then PInf else NInf)"
| "js_mul (Fin m e) NInf = (if m = 0 then NaN else if 0 < m then NInf else PInf)"
| "js_mul PInf (Fin m e) = (if m = 0 then NaN else if 0 < m then PInf else NInf)"
| "js_mul NInf (Fin m e) = (if m = 0 then NaN else if 0 < m then NInf else PInf)"
| "js_mul PInf PInf = PInf"
| "js_mul PInf NInf = NInf"
| "js_mul NInf PInf = NInf"
| "js_mul NInf NInf = PInf"

fun js_div :: "jsnum \<Rightarrow> jsnum \<Rightarrow> jsnum" where
  "js_div NaN y = NaN"
| "js_div x NaN = NaN"
| "js_div (Fin m1 e1) (Fin m2 e2) =
     (if m2 = 0 then (if m1 = 0 then NaN else if 0 < m1 then PInf else NInf)
      else if 0 < m2 then round_quot m1 m2 (e1 - e2)
      else round_quot (- m1) (- m2) (e1 - e2))"
| "js_div (Fin m e) PInf = Fin 0 0"
| "js_div (Fin m e) NInf = Fin 0 0"
| "js_div PInf (Fin m e) = (if 0 \<le> m then PInf else NInf)"
| "js_div NInf (Fin m e) = (if 0 \<le> m then NInf else PInf)"
| "js_div x y = NaN"

text \<open>\<open>\<lfloor>\<surd>n\<rfloor>\<close>, two bits at a time.\<close>

function isqrt :: "int \<Rightarrow> int" where
  "isqrt n = (if n \<le> 0 then 0
     else let r = 2 * isqrt (n div 4) in if (r + 1) * (r + 1) \<le> n then r + 1 else r)"
  by pat_completeness auto
termination
  by (relation "measure nat") auto

declare isqrt.simps [simp del]

text \<open>
  \<^verbatim>\<open>Math.sqrt\<close>, correctly rounded: the mantissa is made to carry an even exponent, the
  root of \<open>a / b\<close> is taken to 53 bits by \<open>isqrt\<close> and rounded up when the rest is more
  than half a unit (a tie is not possible on a double, and goes to even).
\<close>

definition sqrt_pos :: "int \<Rightarrow> int \<Rightarrow> jsnum" where
  "sqrt_pos m e = (let m' = (if even e then m else 2 * m);
       h = (if even e then e else e - 1) div 2;
       t = 52 - (bitlen m' - 1) div 2;
       a = m' * 4 ^ nat t; b = 4 ^ nat (- t);
       r = isqrt (a div b);
       c = (2 * r + 1) * (2 * r + 1) * b
     in pack (if 4 * a < c then r else if c < 4 * a then r + 1
              else if even r then r else r + 1) (h - t))"

fun js_sqrt :: "jsnum \<Rightarrow> jsnum" where
  "js_sqrt (Fin m e) = (if m = 0 then Fin 0 0 else if m < 0 then NaN else sqrt_pos m e)"
| "js_sqrt PInf = PInf"
| "js_sqrt NInf = NaN"
| "js_sqrt NaN = NaN"

text \<open>The sign tests of the sort comparator, and the comparisons \<^verbatim>\<open><\<close> and \<^verbatim>\<open>>=\<close>.\<close>

fun is_pos :: "jsnum \<Rightarrow> bool" where
  "is_pos (Fin m e) = (0 < m)"
| "is_pos PInf = True"
| "is_pos NInf = False"
| "is_pos NaN = False"

fun is_zero :: "jsnum \<Rightarrow> bool" where
  "is_zero (Fin m e) = (m = 0)"
| "is_zero x = False"

fun is_finite :: "jsnum \<Rightarrow> bool" where
  "is_finite (Fin m e) = True"
| "is_finite x = False"

definition fin_lt :: "int \<Rightarrow> int \<Rightarrow> int \<Rightarrow> int \<Rightarrow> bool" where
  "fin_lt m1 e1 m2 e2 =
     (let e0 = min e1 e2 in m1 * 2 ^ nat (e1 - e0) < m2 * 2 ^ nat (e2 - e0))"

fun js_lt :: "jsnum \<Rightarrow> jsnum \<Rightarrow> bool" where
  "js_lt NaN y = False"
| "js_lt x NaN = False"
| "js_lt (Fin m1 e1) (Fin m2 e2) = fin_lt m1 e1 m2 e2"
| "js_lt x PInf = (x \<noteq> PInf)"
| "js_lt NInf y = (y \<noteq> NInf)"
| "js_lt x y = False"

definition js_ge :: "jsnum \<Rightarrow> jsnum \<Rightarrow> bool" where
  "js_ge x y = (x \<noteq> NaN \<and> y \<noteq> NaN \<and> \<not> js_lt x y)"

text \<open>
  \<^verbatim>\<open>+x.toFixed(4)\<close>: below \<open>10^21\<close> the integer \<open>n\<close> with \<open>n / 10^4\<close> nearest to \<open>\<bar>x\<bar>\<close>
  (the larger one on a tie), printed in decimal and read back as a double.
\<close>

fun to_fixed4 :: "jsnum \<Rightarrow> jsnum" where
  "to_fixed4 (Fin m e) =
     (if 10 ^ 21 * 2 ^ nat (- e) \<le> \<bar>m\<bar> * 2 ^ nat e then Fin m e
      else let n = (2 * \<bar>m\<bar> * 10 ^ 4 * 2 ^ nat e + 2 ^ nat (- e)) div (2 * 2 ^ nat (- e))
           in round_quot (if m < 0 then - n else n) (10 ^ 4) 0)"
| "to_fixed4 x = x"

section \<open>Strings\<close>

text \<open>A JavaScript string is a sequence of UTF-16 code units.\<close>

type_synonym jsstring = "16 word list"

definition ustr :: "string \<Rightarrow> jsstring" where
  "ustr s = map (\<lambda>c. of_nat (of_char c)) s"

text \<open>What \<^verbatim>\<open>String.prototype.trim\<close> strips: WhiteSpace and LineTerminator.\<close>

definition is_ws :: "16 word \<Rightarrow> bool" where
  "is_ws c = (c = 0x9 \<or> c = 0xA \<or> c = 0xB \<or> c = 0xC \<or> c = 0xD \<or> c = 0x20 \<or> c = 0xA0
     \<or> c = 0x1680 \<or> (0x2000 \<le> c \<and> c \<le> 0x200A) \<or> c = 0x2028 \<or> c = 0x2029
     \<or> c = 0x202F \<or> c = 0x205F \<or> c = 0x3000 \<or> c = 0xFEFF)"

definition trim :: "jsstring \<Rightarrow> jsstring" where
  "trim s = rev (dropWhile is_ws (rev (dropWhile is_ws s)))"

text \<open>\<^verbatim>\<open>!s\<close> for a value that is a string or undefined.\<close>

fun falsy :: "jsstring option \<Rightarrow> bool" where
  "falsy None = True"
| "falsy (Some s) = (s = [])"

fun join :: "jsstring \<Rightarrow> jsstring list \<Rightarrow> jsstring" where
  "join sep [] = []"
| "join sep [x] = x"
| "join sep (x # y # ys) = x @ sep @ join sep (y # ys)"

section \<open>The knowledge base\<close>

type_synonym vec = "jsnum list"

text \<open>\<^verbatim>\<open>{ id, text, embedding: number[], timestamp }\<close>; \<open>embedding = None\<close> is a missing field.\<close>

record doc =
  doc_id :: jsstring
  doc_text :: jsstring
  embedding :: "vec option"
  timestamp :: jsstring

text \<open>
  What a handler catches: a \<^verbatim>\<open>TypeError\<close> of the engine (a property read on
  \<^verbatim>\<open>undefined\<close>), or the error of a failed HTTP request with its message.
\<close>

datatype error = TypeError | RequestError jsstring

text \<open>
  What the process reaches outside itself: the embeddings and generation endpoints of the
  model server (a call returns the field read from the reply, or throws) and the clock
  behind \<^verbatim>\<open>new Date().toISOString()\<close>. Each call may change the outer world \<open>'w\<close>.
\<close>

record 'w env =
  post_embeddings :: "'w \<Rightarrow> jsstring \<Rightarrow> (error + vec option) \<times> 'w"
  post_generate :: "'w \<Rightarrow> jsstring \<Rightarrow> (error + jsstring) \<times> 'w"
  date_now :: "'w \<Rightarrow> jsstring \<times> 'w"

text \<open>
  The file \<^verbatim>\<open>./kb.json\<close> holds a JSON value: \<^verbatim>\<open>JSON.stringify\<close> followed by
  \<^verbatim>\<open>JSON.parse\<close> is taken at the level of the value written, where a missing field is
  left out and a number that is not finite is written as \<^verbatim>\<open>null\<close>. The fields are
  written in one fixed order and read by name. Writing and reading the file itself are
  taken to succeed.
\<close>

datatype json = JNull | JNum int int | JStr jsstring | JArr "json list"
  | JObj "(jsstring \<times> json) list"

record 'w state =
  kb :: "doc list"
  disk :: "json option"
  world :: 'w

fun json_of_num :: "jsnum \<Rightarrow> json" where
  "json_of_num (Fin m e) = JNum m e"
| "json_of_num x = JNull"

definition json_of_doc :: "doc \<Rightarrow> json" where
  "json_of_doc d = JObj ([(ustr ''id'', JStr (doc_id d)), (ustr ''text'', JStr (doc_text d))]
     @ (case embedding d of None \<Rightarrow> []
        | Some v \<Rightarrow> [(ustr ''embedding'', JArr (map json_of_num v))])
     @ [(ustr ''timestamp'', JStr (timestamp d))])"

definition stringify :: "doc list \<Rightarrow> json" where
  "stringify ds = JArr (map json_of_doc ds)"

definition saveKB :: "'w state \<Rightarrow> 'w state" where
  "saveKB st = st\<lparr>disk := Some (stringify (kb st))\<rparr>"

text \<open>
  Reading the snapshot back. The result is \<open>None\<close> when the value read is not a sequence
  of documents of the shape above (the program then holds a value this model has no
  type for).
\<close>

fun num_of_json :: "json \<Rightarrow> jsnum option" where
  "num_of_json (JNum m e) = Some (Fin m e)"
| "num_of_json j = None"

fun those_list :: "'a option list \<Rightarrow> 'a list option" where
  "those_list [] = Some []"
| "those_list (x # xs) = (case x of None \<Rightarrow> None
     | Some y \<Rightarrow> (case those_list xs of None \<Rightarrow> None | Some ys \<Rightarrow> Some (y # ys)))"

fun str_of_json :: "json option \<Rightarrow> jsstring option" where
  "str_of_json (Some (JStr s)) = Some s"
| "str_of_json j = None"

fun vec_of_json :: "json option \<Rightarrow> vec option option" where
  "vec_of_json None = Some None"
| "vec_of_json (Some (JArr xs)) = (case those_list (map num_of_json xs) of
     None \<Rightarrow> None | Some v \<Rightarrow> Some (Some v))"
| "vec_of_json j = None"

fun doc_of_json :: "json \<Rightarrow> doc option" where
  "doc_of_json (JObj kvs) =
     (let f = map_of (rev kvs) in
      case (str_of_json (f (ustr ''id'')), str_of_json (f (ustr ''text'')),
            vec_of_json (f (ustr ''embedding'')), str_of_json (f (ustr ''timestamp''))) of
        (Some i, Some t, Some v, Some ts) \<Rightarrow>
          Some \<lparr>doc_id = i, doc_text = t, embedding = v, timestamp = ts\<rparr>
      | _ \<Rightarrow> None)"
| "doc_of_json j = None"

fun parse :: "json \<Rightarrow> doc list option" where
  "parse (JArr xs) = those_list (map doc_of_json xs)"
| "parse j = None"

definition seed_docs :: "jsstring \<Rightarrow> jsstring \<Rightarrow> doc list" where
  "seed_docs t1 t2 =
    [\<lparr>doc_id = ustr ''d1'',
      doc_text = ustr ''TinyLlama is a small language model optimized for fast inference on modest hardware.'',
      embedding = None, timestamp = t1\<rparr>,
     \<lparr>doc_id = ustr ''d2'',
      doc_text = ustr ''React Native builds mobile apps using JavaScript and native widgets for iOS and Android.'',
      embedding = None, timestamp = t2\<rparr>]"

definition loadKB :: "'w env \<Rightarrow> 'w state \<Rightarrow> 'w state option" where
  "loadKB env st = (case disk st of
       Some j \<Rightarrow> (case parse j of None \<Rightarrow> None | Some ds \<Rightarrow> Some (st\<lparr>kb := ds\<rparr>))
     | None \<Rightarrow>
        (case date_now env (world st) of (t1, w1) \<Rightarrow>
         case date_now env w1 of (t2, w2) \<Rightarrow>
           Some (st\<lparr>kb := seed_docs t1 t2, world := w2\<rparr>)))"

definition embedOne :: "'w env \<Rightarrow> 'w \<Rightarrow> jsstring \<Rightarrow> (error + vec option) \<times> 'w" where
  "embedOne env w t = post_embeddings env w t"

text \<open>
  \<^verbatim>\<open>ensureEmbeddings\<close>: the documents of \<^verbatim>\<open>toEmbed\<close> are the objects of \<^verbatim>\<open>kb\<close> themselves,
  here their positions in \<open>kb\<close>. A throw leaves the loop, and \<^verbatim>\<open>saveKB\<close> is not reached.
\<close>

fun backfill :: "'w env \<Rightarrow> nat list \<Rightarrow> 'w state \<Rightarrow> error option \<times> 'w state" where
  "backfill env [] st = (None, st)"
| "backfill env (i # is) st =
     (case embedOne env (world st) (doc_text (kb st ! i)) of
        (Inl e, w) \<Rightarrow> (Some e, st\<lparr>world := w\<rparr>)
      | (Inr v, w) \<Rightarrow>
          backfill env is (st\<lparr>kb := (kb st)[i := (kb st ! i)\<lparr>embedding := v\<rparr>], world := w\<rparr>))"

definition toEmbed :: "doc list \<Rightarrow> nat list" where
  "toEmbed ds = filter (\<lambda>i. embedding (ds ! i) = None) [0..<length ds]"

definition ensureEmbeddings :: "'w env \<Rightarrow> 'w state \<Rightarrow> error option \<times> 'w state" where
  "ensureEmbeddings env st = (case backfill env (toEmbed (kb st)) st of
       (Some e, st') \<Rightarrow> (Some e, st')
     | (None, st') \<Rightarrow> (None, saveKB st'))"

section \<open>Similarity and ranking\<close>

text \<open>\<^verbatim>\<open>v[i]\<close> is \<^verbatim>\<open>undefined\<close> (here \<open>None\<close>) past the end, and \<^verbatim>\<open>undefined\<close> is \<open>NaN\<close> in a product.\<close>

definition elem_at :: "vec \<Rightarrow> nat \<Rightarrow> jsnum option" where
  "elem_at v i = (if i < length v then Some (v ! i) else None)"

fun to_number :: "jsnum option \<Rightarrow> jsnum" where
  "to_number None = NaN"
| "to_number (Some x) = x"

text \<open>The literal \<^verbatim>\<open>1e-9\<close> is the double \<open>0x3E112E0BE826D695\<close>.\<close>

definition eps :: jsnum where
  "eps = Fin 4835703278458517 (- 82)"

definition cosine_step :: "vec \<Rightarrow> vec \<Rightarrow> nat \<Rightarrow> jsnum \<times> jsnum \<times> jsnum \<Rightarrow> jsnum \<times> jsnum \<times> jsnum" where
  "cosine_step a b i acc = (case acc of (dot, na, nb) \<Rightarrow>
     (js_add dot (js_mul (to_number (elem_at a i)) (to_number (elem_at b i))),
      js_add na (js_mul (to_number (elem_at a i)) (to_number (elem_at a i))),
      js_add nb (js_mul (to_number (elem_at b i)) (to_number (elem_at b i)))))"

definition cosine_indices :: "vec \<Rightarrow> nat list" where
  "cosine_indices a = [0..<length a]"

definition cosine_sums :: "vec \<Rightarrow> vec \<Rightarrow> jsnum \<times> jsnum \<times> jsnum" where
  "cosine_sums a b = fold (cosine_step a b) (cosine_indices a) (Fin 0 0, Fin 0 0, Fin 0 0)"

definition denominator :: "jsnum \<Rightarrow> jsnum \<Rightarrow> jsnum" where
  "denominator na nb = js_add (js_mul (js_sqrt na) (js_sqrt nb)) eps"

definition cosine_vec :: "vec \<Rightarrow> vec \<Rightarrow> jsnum" where
  "cosine_vec a b = (case cosine_sums a b of (dot, na, nb) \<Rightarrow> js_div dot (denominator na nb))"

text \<open>
  \<^verbatim>\<open>cosine(a, b)\<close> on values that may be \<^verbatim>\<open>undefined\<close>: \<^verbatim>\<open>a.length\<close> throws on an undefined
  \<^verbatim>\<open>a\<close>, and \<^verbatim>\<open>b[i]\<close> throws on an undefined \<^verbatim>\<open>b\<close> as soon as the loop body runs.
\<close>

fun cosine :: "vec option \<Rightarrow> vec option \<Rightarrow> error + jsnum" where
  "cosine None b = Inl TypeError"
| "cosine (Some a) None = (if a = [] then Inr (cosine_vec a []) else Inl TypeError)"
| "cosine (Some a) (Some b) = Inr (cosine_vec a b)"

text \<open>\<^verbatim>\<open>{ ...d, score }\<close>\<close>

record scored =
  s_doc :: doc
  score :: jsnum

fun score_all :: "vec option \<Rightarrow> doc list \<Rightarrow> error + scored list" where
  "score_all q [] = Inr []"
| "score_all q (d # ds) = (case cosine q (embedding d) of
       Inl e \<Rightarrow> Inl e
     | Inr s \<Rightarrow> (case score_all q ds of
         Inl e \<Rightarrow> Inl e
       | Inr r \<Rightarrow> Inr (\<lparr>s_doc = d, score = s\<rparr> # r)))"

text \<open>
  \<^verbatim>\<open>sort((a, b) => b.score - a.score)\<close>. The sort is stable, and a comparator value of
  \<open>NaN\<close> counts as \<open>0\<close>; on a consistent comparator every stable sort returns the list
  that this insertion sort returns.
\<close>

definition compare_desc :: "scored \<Rightarrow> scored \<Rightarrow> jsnum" where
  "compare_desc a b = js_sub (score b) (score a)"

fun sort_insert :: "('a \<Rightarrow> 'a \<Rightarrow> jsnum) \<Rightarrow> 'a \<Rightarrow> 'a list \<Rightarrow> 'a list" where
  "sort_insert cmp x [] = [x]"
| "sort_insert cmp x (y # ys) =
     (if is_pos (cmp x y) then y # sort_insert cmp x ys else x # y # ys)"

definition js_sort :: "('a \<Rightarrow> 'a \<Rightarrow> jsnum) \<Rightarrow> 'a list \<Rightarrow> 'a list" where
  "js_sort cmp xs = foldr (sort_insert cmp) xs []"

text \<open>\<^verbatim>\<open>xs.slice(0, stop)\<close> for an integer \<^verbatim>\<open>stop\<close>: a negative one counts from the end.\<close>

definition slice0 :: "'a list \<Rightarrow> int \<Rightarrow> 'a list" where
  "slice0 xs stop = (let len = int (length xs);
       final = (if stop < 0 then max (len + stop) 0 else min stop len)
     in take (nat final) xs)"

definition rank :: "doc list \<Rightarrow> vec option \<Rightarrow> int \<Rightarrow> error + scored list" where
  "rank ds qemb k = (case score_all qemb ds of
       Inl e \<Rightarrow> Inl e
     | Inr r \<Rightarrow> Inr (slice0 (js_sort compare_desc r) k))"

section \<open>The routes\<close>

text \<open>
  \<^verbatim>\<open>POST /ingest\<close> and \<^verbatim>\<open>POST /chat\<close>, each request run to its end before the next one
  starts. In a body, \<^verbatim>\<open>documents\<close> is an array of objects or missing, the \<^verbatim>\<open>id\<close> and
  \<^verbatim>\<open>text\<close> of an item and the \<^verbatim>\<open>query\<close> are strings or missing, and \<^verbatim>\<open>topK\<close> is an
  integer or missing.
\<close>

record item =
  item_id :: "jsstring option"
  item_text :: "jsstring option"

record ingest_body =
  documents :: "item list option"

record source =
  src_id :: jsstring
  src_score :: jsnum
  src_timestamp :: jsstring

datatype response =
    Added nat
  | Answer jsstring "source list"
  | Status400 jsstring
  | Status500 error

fun ingest_loop :: "'w env \<Rightarrow> item list \<Rightarrow> 'w state \<Rightarrow> error option \<times> 'w state" where
  "ingest_loop env [] st = (None, st)"
| "ingest_loop env (d # ds) st =
     (if falsy (item_id d) \<or> falsy (item_text d) then ingest_loop env ds st
      else case embedOne env (world st) (the (item_text d)) of
        (Inl e, w) \<Rightarrow> (Some e, st\<lparr>world := w\<rparr>)
      | (Inr v, w) \<Rightarrow>
         (case date_now env w of (ts, w') \<Rightarrow>
            ingest_loop env ds
              (st\<lparr>kb := kb st @ [\<lparr>doc_id = the (item_id d), doc_text = the (item_text d),
                                   embedding = v, timestamp = ts\<rparr>],
                  world := w'\<rparr>)))"

definition ingest :: "'w env \<Rightarrow> 'w state \<Rightarrow> ingest_body \<Rightarrow> response \<times> 'w state" where
  "ingest env st body =
     (let docs = (case documents body of None \<Rightarrow> [] | Some ds \<Rightarrow> ds) in
      case ingest_loop env docs st of
        (Some e, st') \<Rightarrow> (Status500 e, st')
      | (None, st') \<Rightarrow> (Added (length docs), saveKB st'))"

record chat_body =
  query :: "jsstring option"
  topK :: "int option"

definition topK_of :: "chat_body \<Rightarrow> int" where
  "topK_of body = (case topK body of None \<Rightarrow> 3 | Some k \<Rightarrow> k)"

definition context_of :: "scored list \<Rightarrow> jsstring" where
  "context_of ranked =
     join ([0xA] @ ustr ''---'' @ [0xA])
       (map (\<lambda>d. ustr ''['' @ doc_id (s_doc d) @ ustr ''] '' @ doc_text (s_doc d)) ranked)"

definition prompt_of :: "jsstring \<Rightarrow> jsstring \<Rightarrow> jsstring" where
  "prompt_of context q =
     ustr ''You are a helpful assistant. Use the CONTEXT to answer clearly.'' @ [0xA]
     @ ustr ''If the answer is not in the context, say you are not sure.'' @ [0xA, 0xA]
     @ ustr ''CONTEXT:'' @ [0xA] @ context @ [0xA, 0xA]
     @ ustr ''USER: '' @ q @ [0xA] @ ustr ''ASSISTANT:''"

definition sources_of :: "scored list \<Rightarrow> source list" where
  "sources_of ranked = map (\<lambda>x. \<lparr>src_id = doc_id (s_doc x), src_score = to_fixed4 (score x),
                                  src_timestamp = timestamp (s_doc x)\<rparr>) ranked"

text \<open>
  \<^verbatim>\<open>POST /chat\<close>. The \<^verbatim>\<open>elapsed\<close> field of the answer (a difference of two readings of
  \<^verbatim>\<open>Date.now()\<close>) is left out of \<open>Answer\<close>; \<^verbatim>\<open>topK = 3\<close> is the default of the
  destructuring, taken before the query is looked at.
\<close>

definition chat :: "'w env \<Rightarrow> 'w state \<Rightarrow> chat_body \<Rightarrow> response \<times> 'w state" where
  "chat env st body =
     (if falsy (query body) \<or> trim (the (query body)) = []
      then (Status400 (ustr ''query is required''), st)
      else case embedOne env (world st) (the (query body)) of
        (Inl e, w) \<Rightarrow> (Status500 e, st\<lparr>world := w\<rparr>)
      | (Inr qemb, w) \<Rightarrow>
         (case rank (kb st) qemb (topK_of body) of
            Inl e \<Rightarrow> (Status500 e, st\<lparr>world := w\<rparr>)
          | Inr ranked \<Rightarrow>
             (case post_generate env w (prompt_of (context_of ranked) (the (query body))) of
                (Inl e, w') \<Rightarrow> (Status500 e, st\<lparr>world := w'\<rparr>)
              | (Inr r, w') \<Rightarrow> (Answer r (sources_of ranked), st\<lparr>world := w'\<rparr>))))"

section \<open>Notions used in the statements\<close>

text \<open>The items that \<^verbatim>\<open>POST /ingest\<close> does not skip.\<close>

definition valid_item :: "item \<Rightarrow> bool" where
  "valid_item d = (\<not> falsy (item_id d) \<and> \<not> falsy (item_text d))"

text \<open>What may happen to a document of the store: nothing but its embedding being filled in.\<close>

definition only_embedding_filled :: "doc \<Rightarrow> doc \<Rightarrow> bool" where
  "only_embedding_filled d d' =
     (doc_id d' = doc_id d \<and> doc_text d' = doc_text d \<and> timestamp d' = timestamp d \<and>
      (embedding d' = embedding d \<or> embedding d = None))"

text \<open>The sums of the loop of \<^verbatim>\<open>cosine\<close> with the two norms exchanged.\<close>

fun swap_norms :: "jsnum \<times> jsnum \<times> jsnum \<Rightarrow> jsnum \<times> jsnum \<times> jsnum" where
  "swap_norms (dot, na, nb) = (dot, nb, na)"



text \<open>A double that is a multiple of \<open>2^-1074\<close>, and one that is not below zero.\<close>

fun on_grid :: "jsnum \<Rightarrow> bool" where
  "on_grid (Fin m e) = (- 1074 \<le> e)"
| "on_grid x = True"

fun not_neg :: "jsnum \<Rightarrow> bool" where
  "not_neg (Fin m e) = (0 \<le> m)"
| "not_neg NInf = False"
| "not_neg x = True"

text \<open>
  The order \<^verbatim>\<open>a.score >= b.score\<close> on scored candidates, and the candidates on which the
  comparator of the sort decides it.
\<close>

definition score_ge :: "scored \<Rightarrow> scored \<Rightarrow> bool" where
  "score_ge x y = js_ge (score x) (score y)"

definition comparable :: "scored \<Rightarrow> bool" where
  "comparable x = (score x \<noteq> NaN \<and> on_grid (score x))"

section \<open>A stub of the outer world, and examples\<close>

text \<open>
  The world is the number of calls made so far: the embeddings endpoint answers
  \<^verbatim>\<open>[1, 0, 0]\<close> and refuses its second call, the clock stands still.
\<close>

definition stub_env :: "nat env" where
  "stub_env = \<lparr>post_embeddings = (\<lambda>w t. (if w = 1 then Inl (RequestError (ustr ''connect ECONNREFUSED''))
                                          else Inr (Some [Fin 1 0, Fin 0 0, Fin 0 0]), Suc w)),
               post_generate = (\<lambda>w p. (Inr (ustr ''ok''), Suc w)),
               date_now = (\<lambda>w. (ustr ''2024-01-01T00:00:00.000Z'', w))\<rparr>"

definition empty_state :: "nat \<Rightarrow> nat state" where
  "empty_state w = \<lparr>kb = [], disk = None, world = w\<rparr>"

text \<open>Batches for \<^verbatim>\<open>POST /ingest\<close>: three good items, and one good item with two to skip.\<close>

definition three_items :: "item list" where
  "three_items = [\<lparr>item_id = Some (ustr ''x''), item_text = Some (ustr ''hello'')\<rparr>,
                  \<lparr>item_id = Some (ustr ''y''), item_text = Some (ustr ''second'')\<rparr>,
                  \<lparr>item_id = Some (ustr ''z''), item_text = Some (ustr ''third'')\<rparr>]"

definition skip_items :: "item list" where
  "skip_items = [\<lparr>item_id = Some (ustr ''x''), item_text = Some (ustr ''hello'')\<rparr>,
                 \<lparr>item_id = None, item_text = Some (ustr ''no id'')\<rparr>,
                 \<lparr>item_id = Some (ustr ''z''), item_text = Some []\<rparr>]"

text \<open>Stores: one with a document still to embed, one with the embedding \<^verbatim>\<open>[Infinity]\<close>.\<close>

definition two_docs :: "doc list" where
  "two_docs = [\<lparr>doc_id = ustr ''a'', doc_text = ustr ''first'', embedding = None,
                 timestamp = ustr ''t0''\<rparr>,
               \<lparr>doc_id = ustr ''b'', doc_text = ustr ''other'', embedding = Some [Fin 0 0, Fin 1 0, Fin 0 0],
                 timestamp = ustr ''t1''\<rparr>]"


text \<open>
  Documents for the ranking: the embeddings \<^verbatim>\<open>[1, 0]\<close> and \<^verbatim>\<open>[0, 1]\<close>, a document
  without an embedding, and the embeddings \<^verbatim>\<open>[2 ** 600]\<close> and \<^verbatim>\<open>[1]\<close>.
\<close>

definition doc_a :: doc where
  "doc_a = \<lparr>doc_id = ustr ''a'', doc_text = ustr ''first'', embedding = Some [Fin 1 0, Fin 0 0],
             timestamp = ustr ''t0''\<rparr>"

definition doc_b :: doc where
  "doc_b = \<lparr>doc_id = ustr ''b'', doc_text = ustr ''other'', embedding = Some [Fin 0 0, Fin 1 0],
             timestamp = ustr ''t1''\<rparr>"

definition doc_bare :: doc where
  "doc_bare = \<lparr>doc_id = ustr ''c'', doc_text = ustr ''bare'', embedding = None,
                timestamp = ustr ''t2''\<rparr>"

definition doc_huge :: doc where
  "doc_huge = \<lparr>doc_id = ustr ''h'', doc_text = ustr ''huge'', embedding = Some [Fin 1 600],
                timestamp = ustr ''t3''\<rparr>"

definition doc_one :: doc where
  "doc_one = \<lparr>doc_id = ustr ''o'', doc_text = ustr ''one'', embedding = Some [Fin 1 0],
               timestamp = ustr ''t4''\<rparr>"

section \<open>Checks of the arithmetic\<close>

text \<open>
  The model against known doubles: \<open>0.1 + 0.2\<close> is \<open>0x1.3333333333334p-2\<close>, \<open>1 / 3\<close> is
  \<open>0x1.5555555555555p-2\<close>, the root of \<open>2\<close> is \<open>0x1.6a09e667f3bcdp+0\<close>, the literal
  \<open>1e-9\<close> is the double nearest to \<open>10^-9\<close>; the largest double plus half a unit in its
  last place overflows, and half the smallest double rounds to zero.
\<close>

lemma arithmetic_on_known_doubles:
  "js_add (Fin 3602879701896397 (- 55)) (Fin 3602879701896397 (- 54)) = Fin 1351079888211149 (- 52)"
  "js_div (Fin 1 0) (Fin 3 0) = Fin 6004799503160661 (- 54)"
  "js_sqrt (Fin 1 1) = Fin 6369051672525773 (- 52)"
  "round_quot 1 (10 ^ 9) 0 = eps"
  "js_add (Fin 9007199254740991 971) (Fin 1 970) = PInf"
  "js_div (Fin 1 (- 1074)) (Fin 1 1) = Fin 0 0"
  "js_div (Fin 3 (- 1074)) (Fin 1 1) = Fin 1 (- 1073)"
  "js_sqrt (Fin 253 (- 1071)) = Fin 6331623033015923 (- 584)"
  "to_fixed4 (Fin 1 (- 5)) = Fin 4510805386774289 (- 57)"
  "to_fixed4 (Fin 6004799503160661 (- 53)) = Fin 6005099743135819 (- 53)"
  by code_simp+

section \<open>Loading without a snapshot\<close>

text \<open>
  C7. When \<^verbatim>\<open>./kb.json\<close> does not exist, \<^verbatim>\<open>loadKB\<close> fills the store with exactly two
  documents, \<^verbatim>\<open>d1\<close> and \<^verbatim>\<open>d2\<close> with the two fixed texts, each without an embedding and
  stamped with a reading of the clock taken during the load; nothing is written.
\<close>

theorem loadKB_seeds:
  assumes "disk st = None"
  shows "\<exists>st'. loadKB env st = Some st' \<and> disk st' = None \<and>
    kb st' =
      [\<lparr>doc_id = ustr ''d1'',
        doc_text = ustr ''TinyLlama is a small language model optimized for fast inference on modest hardware.'',
        embedding = None, timestamp = fst (date_now env (world st))\<rparr>,
       \<lparr>doc_id = ustr ''d2'',
        doc_text = ustr ''React Native builds mobile apps using JavaScript and native widgets for iOS and Android.'',
        embedding = None, timestamp = fst (date_now env (snd (date_now env (world st))))\<rparr>]"
  using assms by (simp add: loadKB_def seed_docs_def split: prod.splits)

theorem loadKB_seeds_witness:
  "disk (empty_state 0) = None \<and>
   (\<exists>st'. loadKB stub_env (empty_state 0) = Some st' \<and> map doc_id (kb st') = [ustr ''d1'', ustr ''d2'']
      \<and> map embedding (kb st') = [None, None])"
proof -
  have h: "disk (empty_state 0) = None" by (simp add: empty_state_def)
  from loadKB_seeds [OF h, of stub_env] show ?thesis using h by auto
qed

section \<open>Ingestion\<close>

lemma ingest_loop_total:
  assumes "\<forall>w t. \<exists>v w'. post_embeddings env w t = (Inr v, w')"
  shows "fst (ingest_loop env docs st) = None"
proof (induction docs arbitrary: st)
  case Nil
  then show ?case by simp
next
  case (Cons d ds)
  show ?case
  proof (cases "falsy (item_id d) \<or> falsy (item_text d)")
    case True
    then show ?thesis using Cons.IH [of st] by simp
  next
    case False
    obtain v w where e: "embedOne env (world st) (the (item_text d)) = (Inr v, w)"
      using assms unfolding embedOne_def by blast
    obtain ts w' where dn: "date_now env w = (ts, w')" by (cases "date_now env w")
    show ?thesis using False e dn Cons.IH by simp
  qed
qed

text \<open>
  C3. When the loop of \<^verbatim>\<open>POST /ingest\<close> runs through the whole batch without a throw of
  the embeddings call, the answer is \<^verbatim>\<open>{added: docs.length}\<close>: the length of the batch,
  whatever number of its items was skipped for a missing id or text. An embeddings
  endpoint that never throws is a case of it.
\<close>

theorem ingest_added_count:
  "(fst (ingest_loop env docs st) = None
      \<longrightarrow> fst (ingest env st \<lparr>documents = Some docs\<rparr>) = Added (length docs))
   \<and> ((\<forall>w t. \<exists>v w'. post_embeddings env w t = (Inr v, w'))
      \<longrightarrow> fst (ingest env st \<lparr>documents = Some docs\<rparr>) = Added (length docs))"
proof -
  have a: "fst (ingest env st \<lparr>documents = Some docs\<rparr>) = Added (length docs)"
    if "fst (ingest_loop env docs st) = None"
    using that by (cases "ingest_loop env docs st") (auto simp: ingest_def)
  show ?thesis
  proof (intro conjI impI)
    assume "fst (ingest_loop env docs st) = None"
    then show "fst (ingest env st \<lparr>documents = Some docs\<rparr>) = Added (length docs)"
      by (rule a)
  next
    assume "\<forall>w t. \<exists>v w'. post_embeddings env w t = (Inr v, w')"
    then have "fst (ingest_loop env docs st) = None" by (rule ingest_loop_total)
    then show "fst (ingest env st \<lparr>documents = Some docs\<rparr>) = Added (length docs)"
      by (rule a)
  qed
qed

theorem ingest_added_count_witness:
  "fst (ingest_loop stub_env skip_items (empty_state 5)) = None \<and>
   fst (ingest stub_env (empty_state 5) \<lparr>documents = Some skip_items\<rparr>) = Added 3 \<and>
   length (kb (snd (ingest stub_env (empty_state 5) \<lparr>documents = Some skip_items\<rparr>))) = 1"
proof -
  have h: "fst (ingest_loop stub_env skip_items (empty_state 5)) = None"
    by (simp add: skip_items_def stub_env_def empty_state_def embedOne_def ustr_def)
  have k: "length (kb (snd (ingest stub_env (empty_state 5) \<lparr>documents = Some skip_items\<rparr>))) = 1"
    by (simp add: ingest_def saveKB_def skip_items_def stub_env_def empty_state_def embedOne_def ustr_def)
  from ingest_added_count [of stub_env skip_items "empty_state 5", THEN conjunct1] h
  have "fst (ingest stub_env (empty_state 5) \<lparr>documents = Some skip_items\<rparr>) = Added (length skip_items)"
    by blast
  with h k show ?thesis by (simp add: skip_items_def)
qed

lemma ingest_loop_append:
  "ingest_loop env (xs @ ys) st =
     (case ingest_loop env xs st of (Some e, s) \<Rightarrow> (Some e, s) | (None, s) \<Rightarrow> ingest_loop env ys s)"
  by (induction xs arbitrary: st) (auto split: prod.splits sum.splits option.splits)

lemma ingest_loop_disk: "disk (snd (ingest_loop env xs st)) = disk st"
  by (induction xs arbitrary: st) (auto split: prod.splits sum.splits)

lemma ingest_loop_prefix: "take (length (kb st)) (kb (snd (ingest_loop env xs st))) = kb st"
proof (induction xs arbitrary: st)
  case Nil
  then show ?case by simp
next
  case (Cons d ds)
  show ?case
  proof (cases "falsy (item_id d) \<or> falsy (item_text d)")
    case True
    then show ?thesis using Cons.IH [of st] by simp
  next
    case False
    show ?thesis
    proof (cases "embedOne env (world st) (the (item_text d))")
      case (Pair r w)
      show ?thesis
      proof (cases r)
        case (Inl e)
        then show ?thesis using False Pair by simp
      next
        case (Inr v)
        obtain ts w' where dn: "date_now env w = (ts, w')" by (cases "date_now env w")
        let ?st = "st\<lparr>kb := kb st @ [\<lparr>doc_id = the (item_id d), doc_text = the (item_text d),
                                   embedding = v, timestamp = ts\<rparr>], world := w'\<rparr>"
        have "take (length (kb ?st)) (kb (snd (ingest_loop env ds ?st))) = kb ?st"
          by (rule Cons.IH)
        then have "take (length (kb st)) (take (length (kb ?st)) (kb (snd (ingest_loop env ds ?st))))
            = take (length (kb st)) (kb ?st)" by simp
        then have "take (length (kb st)) (kb (snd (ingest_loop env ds ?st))) = kb st"
          by (simp add: min_def)
        then show ?thesis using False Pair Inr dn by simp
      qed
    qed
  qed
qed

lemma ingest_loop_appended:
  "fst (ingest_loop env xs st) = None \<Longrightarrow>
   map (\<lambda>d. (doc_id d, doc_text d)) (drop (length (kb st)) (kb (snd (ingest_loop env xs st))))
     = map (\<lambda>i. (the (item_id i), the (item_text i))) (filter valid_item xs)"
proof (induction xs arbitrary: st)
  case Nil
  then show ?case by simp
next
  case (Cons d ds)
  show ?case
  proof (cases "falsy (item_id d) \<or> falsy (item_text d)")
    case True
    then show ?thesis using Cons.IH [of st] Cons.prems by (auto simp: valid_item_def)
  next
    case False
    show ?thesis
    proof (cases "embedOne env (world st) (the (item_text d))")
      case (Pair r w)
      show ?thesis
      proof (cases r)
        case (Inl e)
        then show ?thesis using False Pair Cons.prems by simp
      next
        case (Inr v)
        obtain ts w' where dn: "date_now env w = (ts, w')" by (cases "date_now env w")
        let ?new = "\<lparr>doc_id = the (item_id d), doc_text = the (item_text d),
                                   embedding = v, timestamp = ts\<rparr>"
        let ?st = "st\<lparr>kb := kb st @ [?new], world := w'\<rparr>"
        have step: "ingest_loop env (d # ds) st = ingest_loop env ds ?st"
          using False Pair Inr dn by simp
        have ok: "fst (ingest_loop env ds ?st) = None" using Cons.prems step by simp
        have pre: "take (length (kb ?st)) (kb (snd (ingest_loop env ds ?st))) = kb ?st"
          by (rule ingest_loop_prefix)
        let ?k = "kb (snd (ingest_loop env ds ?st))"
        have split: "?k = kb ?st @ drop (length (kb ?st)) ?k"
          using pre by (metis append_take_drop_id)
        have "drop (length (kb st)) ?k = ?new # drop (length (kb ?st)) ?k"
          by (subst split) simp
        then show ?thesis using Cons.IH [OF ok] step False by (simp add: valid_item_def)
      qed
    qed
  qed
qed

text \<open>
  C2. When the embeddings call throws on an item of a batch, after the items before it
  went through: the request ends with status 500 and that error; the documents made from
  the items before it stay appended to the store in memory; the items after it are not
  looked at (the outcome, the outer world included, is the same whatever follows); and
  \<^verbatim>\<open>saveKB\<close> is not reached, so the snapshot is what it was before the request.
\<close>

theorem ingest_gateway_failure:
  assumes "fst (ingest_loop env pre st) = None"
    and "valid_item d"
    and "embedOne env (world (snd (ingest_loop env pre st))) (the (item_text d)) = (Inl e, w)"
  shows "ingest env st \<lparr>documents = Some (pre @ d # rest)\<rparr>
           = (Status500 e, (snd (ingest_loop env pre st))\<lparr>world := w\<rparr>)
    \<and> disk (snd (ingest env st \<lparr>documents = Some (pre @ d # rest)\<rparr>)) = disk st
    \<and> take (length (kb st)) (kb (snd (ingest env st \<lparr>documents = Some (pre @ d # rest)\<rparr>))) = kb st
    \<and> map (\<lambda>d. (doc_id d, doc_text d))
         (drop (length (kb st)) (kb (snd (ingest env st \<lparr>documents = Some (pre @ d # rest)\<rparr>))))
       = map (\<lambda>i. (the (item_id i), the (item_text i))) (filter valid_item pre)"
proof -
  obtain st1 where l: "ingest_loop env pre st = (None, st1)"
    using assms(1) by (cases "ingest_loop env pre st") auto
  have r: "ingest_loop env (pre @ d # rest) st = (Some e, st1\<lparr>world := w\<rparr>)"
    using assms(2,3) l by (simp add: ingest_loop_append valid_item_def)
  have i: "ingest env st \<lparr>documents = Some (pre @ d # rest)\<rparr> = (Status500 e, st1\<lparr>world := w\<rparr>)"
    using r by (simp add: ingest_def)
  have d: "disk st1 = disk st" using ingest_loop_disk [of env pre st] l by simp
  have p: "take (length (kb st)) (kb st1) = kb st" using ingest_loop_prefix [of st env pre] l by simp
  have a: "map (\<lambda>d. (doc_id d, doc_text d)) (drop (length (kb st)) (kb st1))
       = map (\<lambda>i. (the (item_id i), the (item_text i))) (filter valid_item pre)"
    using ingest_loop_appended [OF assms(1)] l by simp
  show ?thesis using i d p a l by simp
qed

theorem ingest_gateway_failure_witness:
  "ingest stub_env (empty_state 0) \<lparr>documents = Some three_items\<rparr>
     = (Status500 (RequestError (ustr ''connect ECONNREFUSED'')),
        \<lparr>kb = [\<lparr>doc_id = ustr ''x'', doc_text = ustr ''hello'',
                 embedding = Some [Fin 1 0, Fin 0 0, Fin 0 0],
                 timestamp = ustr ''2024-01-01T00:00:00.000Z''\<rparr>],
         disk = None, world = 2\<rparr>)"
proof -
  let ?pre = "[\<lparr>item_id = Some (ustr ''x''), item_text = Some (ustr ''hello'')\<rparr>]"
  let ?d = "\<lparr>item_id = Some (ustr ''y''), item_text = Some (ustr ''second'')\<rparr>"
  let ?rest = "[\<lparr>item_id = Some (ustr ''z''), item_text = Some (ustr ''third'')\<rparr>]"
  have l: "ingest_loop stub_env ?pre (empty_state 0)
      = (None, \<lparr>kb = [\<lparr>doc_id = ustr ''x'', doc_text = ustr ''hello'',
                 embedding = Some [Fin 1 0, Fin 0 0, Fin 0 0],
                 timestamp = ustr ''2024-01-01T00:00:00.000Z''\<rparr>],
         disk = None, world = 1\<rparr>)"
    by (simp add: stub_env_def empty_state_def embedOne_def ustr_def)
  have h1: "fst (ingest_loop stub_env ?pre (empty_state 0)) = None" using l by simp
  have h2: "valid_item ?d" by (simp add: valid_item_def ustr_def)
  have h3: "embedOne stub_env (world (snd (ingest_loop stub_env ?pre (empty_state 0)))) (the (item_text ?d))
      = (Inl (RequestError (ustr ''connect ECONNREFUSED'')), 2)"
    using l by (simp add: stub_env_def embedOne_def)
  have t: "three_items = ?pre @ ?d # ?rest" by (simp add: three_items_def)
  from ingest_gateway_failure [OF h1 h2 h3, of ?rest] show ?thesis
    unfolding t using l by simp
qed

section \<open>The blank query\<close>

lemma trim_blank:
  assumes "\<forall>c\<in>set q. is_ws c"
  shows "trim q = []"
proof -
  from assms have d: "dropWhile is_ws q = []"
    by (simp add: dropWhile_eq_Nil_conv)
  show ?thesis unfolding trim_def d by simp
qed

text \<open>
  C6. A \<^verbatim>\<open>POST /chat\<close> whose query is missing, or is made of white space only (the empty
  string included), is answered with status 400 and \<^verbatim>\<open>{error: "query is required"}\<close>;
  the store, the snapshot and the outer world are as before.
\<close>

theorem chat_blank_query:
  assumes "query body = None \<or> (\<exists>q. query body = Some q \<and> (\<forall>c\<in>set q. is_ws c))"
  shows "chat env st body = (Status400 (ustr ''query is required''), st)"
  using assms by (auto simp: chat_def trim_blank)

theorem chat_blank_query_witness:
  "list_all is_ws [0x20, 0x3000, 0x9] \<and>
   chat stub_env (empty_state 0) \<lparr>query = Some [0x20, 0x3000, 0x9], topK = None\<rparr>
     = (Status400 (ustr ''query is required''), empty_state 0) \<and>
   chat stub_env (empty_state 0) \<lparr>query = None, topK = Some 2\<rparr>
     = (Status400 (ustr ''query is required''), empty_state 0)"
proof -
  have h: "\<forall>c\<in>set [0x20, 0x3000, 0x9 :: 16 word]. is_ws c" by (simp add: is_ws_def)
  have a: "query \<lparr>query = Some [0x20, 0x3000, 0x9 :: 16 word], topK = None\<rparr> = None \<or>
     (\<exists>q. query \<lparr>query = Some [0x20, 0x3000, 0x9 :: 16 word], topK = None\<rparr> = Some q \<and> (\<forall>c\<in>set q. is_ws c))"
    using h by simp
  have b: "query \<lparr>query = None, topK = Some 2\<rparr> = None \<or>
     (\<exists>q. query \<lparr>query = None, topK = Some 2\<rparr> = Some q \<and> (\<forall>c\<in>set q. is_ws c))"
    by simp
  have l: "list_all is_ws [0x20, 0x3000, 0x9]" by (simp add: is_ws_def)
  from chat_blank_query [OF a, of stub_env "empty_state 0"]
    chat_blank_query [OF b, of stub_env "empty_state 0"] l
  show ?thesis by blast
qed

section \<open>Documents keep their text and timestamp\<close>

lemma backfill_kb:
  "length (kb (snd (backfill env is st))) = length (kb st) \<and>
   (\<forall>j. j \<notin> set is \<longrightarrow> kb (snd (backfill env is st)) ! j = kb st ! j) \<and>
   (\<forall>j<length (kb st). doc_id (kb (snd (backfill env is st)) ! j) = doc_id (kb st ! j)
      \<and> doc_text (kb (snd (backfill env is st)) ! j) = doc_text (kb st ! j)
      \<and> timestamp (kb (snd (backfill env is st)) ! j) = timestamp (kb st ! j))"
proof (induction "is" arbitrary: st)
  case Nil
  then show ?case by simp
next
  case (Cons i "is")
  show ?case
  proof (cases "embedOne env (world st) (doc_text (kb st ! i))")
    case (Pair r w)
    show ?thesis
    proof (cases r)
      case (Inl e)
      then show ?thesis using Pair by simp
    next
      case (Inr v)
      let ?st = "st\<lparr>kb := (kb st)[i := (kb st ! i)\<lparr>embedding := v\<rparr>], world := w\<rparr>"
      have step: "backfill env (i # is) st = backfill env is ?st" using Pair Inr by simp
      note ih = Cons.IH [of ?st]
      have len: "length (kb ?st) = length (kb st)" by simp
      have a: "length (kb (snd (backfill env is ?st))) = length (kb st)" using ih by simp
      have b: "\<forall>j. j \<notin> set (i # is) \<longrightarrow> kb (snd (backfill env is ?st)) ! j = kb st ! j"
        using ih by simp
      have c: "\<forall>j<length (kb st). doc_id (kb (snd (backfill env is ?st)) ! j) = doc_id (kb st ! j)
          \<and> doc_text (kb (snd (backfill env is ?st)) ! j) = doc_text (kb st ! j)
          \<and> timestamp (kb (snd (backfill env is ?st)) ! j) = timestamp (kb st ! j)"
      proof (intro allI impI)
        fix j assume j: "j < length (kb st)"
        have "doc_id (kb ?st ! j) = doc_id (kb st ! j) \<and> doc_text (kb ?st ! j) = doc_text (kb st ! j)
            \<and> timestamp (kb ?st ! j) = timestamp (kb st ! j)"
          using j by (cases "j = i") simp_all
        then show "doc_id (kb (snd (backfill env is ?st)) ! j) = doc_id (kb st ! j)
          \<and> doc_text (kb (snd (backfill env is ?st)) ! j) = doc_text (kb st ! j)
          \<and> timestamp (kb (snd (backfill env is ?st)) ! j) = timestamp (kb st ! j)"
          using ih j by simp
      qed
      show ?thesis unfolding step using a b c by blast
    qed
  qed
qed

lemma ensureEmbeddings_kb:
  "kb (snd (ensureEmbeddings env st)) = kb (snd (backfill env (toEmbed (kb st)) st))"
  by (cases "backfill env (toEmbed (kb st)) st")
     (auto simp: ensureEmbeddings_def saveKB_def split: option.splits)

lemma ensureEmbeddings_docs:
  "list_all2 only_embedding_filled (kb st) (kb (snd (ensureEmbeddings env st)))"
proof -
  let ?k = "kb (snd (backfill env (toEmbed (kb st)) st))"
  note b = backfill_kb [of env "toEmbed (kb st)" st]
  have "\<forall>j<length (kb st). only_embedding_filled (kb st ! j) (?k ! j)"
  proof (intro allI impI)
    fix j assume j: "j < length (kb st)"
    show "only_embedding_filled (kb st ! j) (?k ! j)"
    proof (cases "embedding (kb st ! j) = None")
      case True
      then show ?thesis using b j by (simp add: only_embedding_filled_def)
    next
      case False
      then have "j \<notin> set (toEmbed (kb st))" by (simp add: toEmbed_def)
      then have "?k ! j = kb st ! j" using b by blast
      then show ?thesis by (simp add: only_embedding_filled_def)
    qed
  qed
  then show ?thesis using b by (simp add: list_all2_conv_all_nth ensureEmbeddings_kb)
qed

lemma ingest_kb: "kb (snd (ingest env st body)) = kb (snd (ingest_loop env (case documents body of None \<Rightarrow> [] | Some ds \<Rightarrow> ds) st))"
  by (cases "ingest_loop env (case documents body of None \<Rightarrow> [] | Some ds \<Rightarrow> ds) st")
     (auto simp: ingest_def saveKB_def split: option.splits)

lemma chat_kb: "kb (snd (chat env st body)) = kb st"
  by (auto simp: chat_def split: prod.splits sum.splits)

text \<open>
  C9. No operation on the running store touches the id, the text or the timestamp of a
  document that is already there. The backfill of \<^verbatim>\<open>ensureEmbeddings\<close> keeps the
  sequence and changes at most the embedding of a document, and only of one that had
  none; \<^verbatim>\<open>POST /ingest\<close> only appends; \<^verbatim>\<open>POST /chat\<close> leaves the store as it is. This
  holds for the failing runs as well as for the successful ones.
\<close>

theorem documents_keep_text_and_timestamp:
  "list_all2 only_embedding_filled (kb st) (kb (snd (ensureEmbeddings env st)))
   \<and> take (length (kb st)) (kb (snd (ingest env st ibody))) = kb st
   \<and> kb (snd (chat env st cbody)) = kb st"
  using ensureEmbeddings_docs [of st env] ingest_loop_prefix [of st env] chat_kb [of env st cbody]
  by (simp add: ingest_kb)

theorem documents_keep_text_and_timestamp_witness:
  "kb (snd (ensureEmbeddings stub_env \<lparr>kb = two_docs, disk = None, world = 5\<rparr>))
     = [\<lparr>doc_id = ustr ''a'', doc_text = ustr ''first'', embedding = Some [Fin 1 0, Fin 0 0, Fin 0 0],
         timestamp = ustr ''t0''\<rparr>,
        \<lparr>doc_id = ustr ''b'', doc_text = ustr ''other'', embedding = Some [Fin 0 0, Fin 1 0, Fin 0 0],
         timestamp = ustr ''t1''\<rparr>]
   \<and> list_all2 only_embedding_filled two_docs
        (kb (snd (ensureEmbeddings stub_env \<lparr>kb = two_docs, disk = None, world = 5\<rparr>)))"
proof -
  have e: "kb (snd (ensureEmbeddings stub_env \<lparr>kb = two_docs, disk = None, world = 5\<rparr>))
     = [\<lparr>doc_id = ustr ''a'', doc_text = ustr ''first'', embedding = Some [Fin 1 0, Fin 0 0, Fin 0 0],
         timestamp = ustr ''t0''\<rparr>,
        \<lparr>doc_id = ustr ''b'', doc_text = ustr ''other'', embedding = Some [Fin 0 0, Fin 1 0, Fin 0 0],
         timestamp = ustr ''t1''\<rparr>]"
    by (simp add: ensureEmbeddings_def toEmbed_def two_docs_def stub_env_def embedOne_def saveKB_def
        upt_rec)
  from documents_keep_text_and_timestamp [of "\<lparr>kb = two_docs, disk = None, world = 5\<rparr>" stub_env]
  show ?thesis using e by simp
qed

section \<open>Cosine similarity\<close>

lemma js_mul_commute: "js_mul x y = js_mul y x"
  by (cases x; cases y) (simp_all add: mult.commute add.commute)

lemma cosine_step_swap: "cosine_step b a i (swap_norms acc) = swap_norms (cosine_step a b i acc)"
  by (cases acc) (simp add: cosine_step_def js_mul_commute)

lemma fold_cosine_step_swap:
  "fold (cosine_step b a) is (swap_norms acc) = swap_norms (fold (cosine_step a b) is acc)"
  by (induction "is" arbitrary: acc) (simp_all add: cosine_step_swap)

lemma cosine_sums_swap:
  assumes "length a = length b"
  shows "cosine_sums b a = swap_norms (cosine_sums a b)"
proof -
  have "cosine_sums b a = fold (cosine_step b a) [0..<length a] (swap_norms (Fin 0 0, Fin 0 0, Fin 0 0))"
    using assms by (simp add: cosine_sums_def cosine_indices_def)
  then show ?thesis
    by (simp only: fold_cosine_step_swap cosine_sums_def cosine_indices_def)
qed

text \<open>
  C4. For vectors \<open>a\<close> and \<open>b\<close> of equal length, \<^verbatim>\<open>cosine(a, b)\<close> and \<^verbatim>\<open>cosine(b, a)\<close> are
  the same double (the same \<open>NaN\<close> when the result is not a number).
\<close>

theorem cosine_commutes:
  assumes "length a = length b"
  shows "cosine_vec a b = cosine_vec b a"
proof -
  obtain dot na nb where s: "cosine_sums a b = (dot, na, nb)"
    by (cases "cosine_sums a b") auto
  have "cosine_sums b a = (dot, nb, na)"
    using cosine_sums_swap [OF assms] s by simp
  then show ?thesis
    using s by (simp add: cosine_vec_def denominator_def js_mul_commute)
qed

theorem cosine_commutes_witness:
  "cosine_vec [Fin 1 0, Fin 1 1] [Fin 3 0, Fin 1 2] = cosine_vec [Fin 3 0, Fin 1 2] [Fin 1 0, Fin 1 1]
   \<and> cosine_vec [Fin 1 0, Fin 1 1] [Fin 3 0, Fin 1 2] = Fin 8861912320221339 (- 53)"
proof -
  have l: "length [Fin 1 0, Fin 1 1] = length [Fin 3 0, Fin 1 2]" by simp
  have v: "cosine_vec [Fin 1 0, Fin 1 1] [Fin 3 0, Fin 1 2] = Fin 8861912320221339 (- 53)"
    by code_simp
  from cosine_commutes [OF l] v show ?thesis by simp
qed

lemma elem_at_take: "i < n \<Longrightarrow> elem_at (take n b) i = elem_at b i"
  by (simp add: elem_at_def)

lemma cosine_sums_prefix:
  "cosine_sums a (take (length a) b) = cosine_sums a b"
proof -
  have "fold (cosine_step a (take (length a) b)) [0..<length a] acc
      = fold (cosine_step a b) [0..<length a] acc" for acc
    by (rule fold_cong) (auto simp: cosine_step_def elem_at_take)
  then show ?thesis by (simp add: cosine_sums_def cosine_indices_def)
qed

text \<open>
  C10. The loop of \<^verbatim>\<open>cosine\<close> runs over the indices of its first argument. When \<open>b\<close> is
  at least as long as \<open>a\<close>, every read \<^verbatim>\<open>a[i]\<close> and \<^verbatim>\<open>b[i]\<close> is inside the array, and the
  result is that of \<open>a\<close> against the first \<open>length a\<close> components of \<open>b\<close>.
\<close>

theorem cosine_reads_prefix_only:
  assumes "length a \<le> length b"
  shows "(\<forall>i\<in>set (cosine_indices a). elem_at a i \<noteq> None \<and> elem_at b i \<noteq> None)
    \<and> cosine_vec a b = cosine_vec a (take (length a) b)"
  using assms by (auto simp: cosine_indices_def elem_at_def cosine_vec_def cosine_sums_prefix)

theorem cosine_reads_prefix_only_witness:
  "cosine_vec [Fin 1 0, Fin 1 1] [Fin 3 0, Fin 1 2, Fin 5 0] = cosine_vec [Fin 1 0, Fin 1 1] [Fin 3 0, Fin 1 2]
   \<and> cosine_vec [Fin 1 0, Fin 1 1] [Fin 3 0, Fin 1 2, Fin 5 0] = Fin 8861912320221339 (- 53)
   \<and> list_all (\<lambda>i. elem_at [Fin 3 0, Fin 1 2, Fin 5 0] i \<noteq> None) (cosine_indices [Fin 1 0, Fin 1 1])"
proof -
  have l: "length [Fin 1 0, Fin 1 1] \<le> length [Fin 3 0, Fin 1 2, Fin 5 0]" by simp
  have v: "cosine_vec [Fin 1 0, Fin 1 1] [Fin 3 0, Fin 1 2] = Fin 8861912320221339 (- 53)"
    by code_simp
  from cosine_reads_prefix_only [OF l] v show ?thesis by (simp add: list_all_iff)
qed

section \<open>The snapshot\<close>









section \<open>Rounding keeps the sign\<close>

lemma norm2_exp: "e \<le> snd (norm2 m e)"
proof (induction m e rule: norm2.induct)
  case (1 m e)
  show ?case
  proof (cases "m \<noteq> 0 \<and> even m")
    case True
    then have "norm2 m e = norm2 (m div 2) (e + 1)" by (subst norm2.simps) simp
    then show ?thesis using 1 True by simp
  next
    case False
    then have "norm2 m e = (m, e)" by (subst norm2.simps) auto
    then show ?thesis by simp
  qed
qed

lemma norm2_pos: "0 < m \<Longrightarrow> 0 < fst (norm2 m e)"
proof (induction m e rule: norm2.induct)
  case (1 m e)
  show ?case
  proof (cases "m \<noteq> 0 \<and> even m")
    case True
    then have eq: "norm2 m e = norm2 (m div 2) (e + 1)" by (subst norm2.simps) simp
    have "0 < m div 2" using True "1.prems" by presburger
    then show ?thesis using 1 True eq by simp
  next
    case False
    then have "norm2 m e = (m, e)" by (subst norm2.simps) auto
    then show ?thesis using "1.prems" by simp
  qed
qed

lemma pack_on_grid: "- 1074 \<le> g \<Longrightarrow> on_grid (pack m g)"
  using norm2_exp [of g m] by (auto simp: pack_def split: prod.splits)

lemma pack_pos: "0 < m \<Longrightarrow> is_pos (pack m g)"
  using norm2_pos [of m g] by (auto simp: pack_def split: prod.splits)

lemma pack_not_neg: "0 \<le> m \<Longrightarrow> not_neg (pack m g)"
  using norm2_pos [of m g] by (auto simp: pack_def split: prod.splits)

lemma round_half_even_ge: "a div d \<le> round_half_even a d"
  by (simp add: round_half_even_def Let_def)

lemma round_half_even_1: "round_half_even a 1 = a"
  by (simp add: round_half_even_def Let_def)

lemma bitlen_1: "bitlen 1 = 1"
  by (subst compute_bitlen) simp

lemma ilog2q_le: "ilog2q n 1 \<le> bitlen n - 1"
  unfolding ilog2q_def Let_def bitlen_1 by (rule if_split [THEN iffD2]) simp

lemma pow2_bitlen_le: "0 < n \<Longrightarrow> k \<le> bitlen n - 1 \<Longrightarrow> (2::int) ^ nat k \<le> n"
proof -
  assume n: "0 < n" and k: "k \<le> bitlen n - 1"
  have "(2::int) ^ nat k \<le> 2 ^ nat (bitlen n - 1)"
    using k by (intro power_increasing) auto
  also have "\<dots> \<le> n" using bitlen_bounds [OF n] by simp
  finally show ?thesis .
qed

lemma round_pos_is_pos:
  assumes n: "0 < n" and e: "- 1074 \<le> e"
  shows "is_pos (round_pos n 1 e)"
proof -
  define g where "g = max (ilog2q n 1 + e - 52) (- 1074)"
  have "0 < round_half_even (n * 2 ^ nat (e - g)) (1 * 2 ^ nat (g - e))"
  proof (cases "g \<le> e")
    case True
    then have "nat (g - e) = 0" by simp
    then have "round_half_even (n * 2 ^ nat (e - g)) (1 * 2 ^ nat (g - e)) = n * 2 ^ nat (e - g)"
      by (simp add: round_half_even_1)
    then show ?thesis using n by simp
  next
    case False
    then have "g = ilog2q n 1 + e - 52" using e unfolding g_def by linarith
    then have k: "g - e \<le> bitlen n - 1" using ilog2q_le [of n] by linarith
    have le: "(2::int) ^ nat (g - e) \<le> n" by (rule pow2_bitlen_le [OF n k])
    have z: "nat (e - g) = 0" using False by simp
    have "0 < n div 2 ^ nat (g - e)"
      using le pos_imp_zdiv_pos_iff [of "2 ^ nat (g - e)" n] by simp
    then have "1 \<le> n div 2 ^ nat (g - e)" by linarith
    also have "\<dots> \<le> round_half_even (n * 2 ^ nat (e - g)) (1 * 2 ^ nat (g - e))"
      unfolding z using round_half_even_ge [of n "2 ^ nat (g - e)"] by simp
    finally show ?thesis by simp
  qed
  then show ?thesis unfolding round_pos_def Let_def g_def by (rule pack_pos)
qed

lemma round_pos_on_grid: "on_grid (round_pos n d e)"
  unfolding round_pos_def Let_def by (rule pack_on_grid) simp

lemma on_grid_neg: "on_grid (js_neg x) = on_grid x"
  by (cases x) simp_all

lemma round_quot_on_grid: "on_grid (round_quot n d e)"
  by (simp add: round_quot_def round_pos_on_grid on_grid_neg)

lemma round_half_even_nonneg: "0 \<le> a \<Longrightarrow> 0 < d \<Longrightarrow> 0 \<le> round_half_even a d"
  using round_half_even_ge [of a d] by (smt (verit) pos_imp_zdiv_nonneg_iff)

lemma round_pos_not_neg: "0 \<le> n \<Longrightarrow> not_neg (round_pos n 1 e)"
  unfolding round_pos_def Let_def
  by (rule pack_not_neg) (simp add: round_half_even_nonneg)

lemma round_quot_not_neg: "0 \<le> n \<Longrightarrow> not_neg (round_quot n 1 e)"
  by (simp add: round_quot_def round_pos_not_neg)

lemma js_div_on_grid: "on_grid (js_div x y)"
  by (cases x; cases y) (simp_all add: round_quot_on_grid)

lemma js_mul_on_grid: "on_grid (js_mul x y)"
  by (cases x; cases y) (simp_all add: round_quot_on_grid)

lemma js_mul_not_neg: "not_neg x \<Longrightarrow> not_neg y \<Longrightarrow> not_neg (js_mul x y)"
  by (cases x; cases y) (simp_all add: round_quot_not_neg)

lemma isqrt_nonneg: "0 \<le> isqrt n"
proof (induction n rule: isqrt.induct)
  case (1 n)
  show ?case
  proof (cases "n \<le> 0")
    case True
    then show ?thesis by (subst isqrt.simps) simp
  next
    case False
    then show ?thesis using 1 by (subst isqrt.simps) (simp add: Let_def)
  qed
qed

lemma rounded_root_nonneg:
  "0 \<le> r \<Longrightarrow> (0::int) \<le> (if a then r else if b then r + 1 else if c then r else r + 1)"
  by simp

lemma js_sqrt_not_neg: "not_neg (js_sqrt x)"
proof (cases x)
  case (Fin m e)
  show ?thesis
  proof (cases "0 < m")
    case True
    have "not_neg (sqrt_pos m e)"
      unfolding sqrt_pos_def Let_def
      by (rule pack_not_neg) (rule rounded_root_nonneg [OF isqrt_nonneg])
    then show ?thesis using Fin True by simp
  next
    case False
    then show ?thesis using Fin by simp
  qed
qed simp_all

lemma add_eps_not_zero:
  assumes "not_neg p" and "on_grid p"
  shows "\<not> is_zero (js_add p eps)"
proof (cases p)
  case (Fin m e)
  let ?e0 = "min e (- 82)"
  let ?n = "m * 2 ^ nat (e - ?e0) + 4835703278458517 * 2 ^ nat (- 82 - ?e0)"
  have m: "0 \<le> m" and e: "- 1074 \<le> e" using assms Fin by simp_all
  have "0 < (4835703278458517::int) * 2 ^ nat (- 82 - ?e0)" by simp
  moreover have "0 \<le> m * 2 ^ nat (e - ?e0)" using m by simp
  ultimately have n: "0 < ?n" by linarith
  have "is_pos (round_pos ?n 1 ?e0)"
    by (rule round_pos_is_pos [OF n]) (use e in simp)
  then have "is_pos (js_add p eps)"
    using Fin n by (simp add: eps_def Let_def round_quot_def)
  then show ?thesis by (cases "js_add p eps") simp_all
next
  case PInf
  then show ?thesis by (simp add: eps_def)
next
  case NInf
  then show ?thesis using assms by simp
next
  case NaN
  then show ?thesis by (simp add: eps_def)
qed

lemma denominator_not_zero: "\<not> is_zero (denominator na nb)"
  unfolding denominator_def
  by (rule add_eps_not_zero) (simp_all add: js_mul_not_neg js_sqrt_not_neg js_mul_on_grid)

section \<open>The zero vector\<close>

lemma js_add_finite: "is_finite (js_add x y) \<Longrightarrow> is_finite x \<and> is_finite y"
  by (cases x; cases y) simp_all

lemma js_mul_self_finite: "is_finite (js_mul x x) \<Longrightarrow> is_finite x"
  by (cases x) simp_all

lemma js_mul_zero: "is_zero x \<Longrightarrow> is_finite y \<Longrightarrow> js_mul x y = Fin 0 0"
  by (cases x; cases y) (simp_all add: round_quot_def)

lemma is_zero_finite: "is_zero x \<Longrightarrow> is_finite x"
  by (cases x) simp_all

lemma sums_stay_infinite:
  "\<not> is_finite y \<Longrightarrow> \<not> is_finite (snd (snd (fold (cosine_step a b) is (d, x, y))))"
proof (induction "is" arbitrary: d x y)
  case Nil
  then show ?case by simp
next
  case (Cons i "is")
  have "\<not> is_finite (js_add y (js_mul (to_number (elem_at b i)) (to_number (elem_at b i))))"
    using Cons.prems js_add_finite by blast
  then show ?case using Cons.IH by (simp add: cosine_step_def)
qed

lemma zero_sums:
  assumes "\<forall>i\<in>set is. is_zero (to_number (elem_at a i))"
    and "is_finite (snd (snd (fold (cosine_step a b) is (Fin 0 0, Fin 0 0, y))))"
  shows "fst (fold (cosine_step a b) is (Fin 0 0, Fin 0 0, y)) = Fin 0 0
     \<and> fst (snd (fold (cosine_step a b) is (Fin 0 0, Fin 0 0, y))) = Fin 0 0"
  using assms
proof (induction "is" arbitrary: y)
  case Nil
  then show ?case by simp
next
  case (Cons i "is")
  let ?ai = "to_number (elem_at a i)" and ?bi = "to_number (elem_at b i)"
  let ?y = "js_add y (js_mul ?bi ?bi)"
  have az: "is_zero ?ai" using Cons.prems(1) by simp
  have step: "cosine_step a b i (Fin 0 0, Fin 0 0, y)
      = (js_add (Fin 0 0) (js_mul ?ai ?bi), js_add (Fin 0 0) (js_mul ?ai ?ai), ?y)"
    by (simp add: cosine_step_def)
  have fin: "is_finite (snd (snd (fold (cosine_step a b) is
      (js_add (Fin 0 0) (js_mul ?ai ?bi), js_add (Fin 0 0) (js_mul ?ai ?ai), ?y))))"
    using Cons.prems(2) step by simp
  then have "is_finite ?y" using sums_stay_infinite by blast
  then have "is_finite ?bi" using js_add_finite js_mul_self_finite by blast
  then have d: "js_add (Fin 0 0) (js_mul ?ai ?bi) = Fin 0 0"
    using az by (simp add: js_mul_zero round_quot_def)
  have x: "js_add (Fin 0 0) (js_mul ?ai ?ai) = Fin 0 0"
    using az by (simp add: js_mul_zero round_quot_def is_zero_finite)
  have "cosine_step a b i (Fin 0 0, Fin 0 0, y) = (Fin 0 0, Fin 0 0, ?y)"
    using step d x by simp
  then show ?case using Cons.IH [of ?y] Cons.prems by simp
qed

lemma add_zero_eps: "js_add (Fin 0 0) eps = eps"
  by code_simp

lemma div_zero_eps: "js_div (Fin 0 0) eps = Fin 0 0"
  by (simp add: eps_def round_quot_def)

text \<open>
  C5 (amended). The divisor of \<^verbatim>\<open>cosine\<close> is never zero, whatever the arguments. For the
  zero vector \<open>a\<close> and every \<open>b\<close> whose norm as the loop computes it,
  \<^verbatim>\<open>Math.sqrt(nb)\<close>, is finite, the result is \<open>0\<close>.
\<close>

theorem cosine_zero_vector:
  assumes "list_all is_zero a"
    and "is_finite (js_sqrt (snd (snd (cosine_sums a b))))"
  shows "cosine_vec a b = Fin 0 0 \<and> \<not> is_zero (denominator na nb)"
proof -
  obtain dot x y where s: "cosine_sums a b = (dot, x, y)"
    by (cases "cosine_sums a b") auto
  have fy: "is_finite (js_sqrt y)" using assms(2) s by simp
  then have "is_finite y" by (cases y) simp_all
  then have f: "is_finite (snd (snd (fold (cosine_step a b) (cosine_indices a) (Fin 0 0, Fin 0 0, Fin 0 0))))"
    using s by (simp add: cosine_sums_def)
  have z: "\<forall>i\<in>set (cosine_indices a). is_zero (to_number (elem_at a i))"
    using assms(1) by (simp add: cosine_indices_def elem_at_def list_all_length)
  have "dot = Fin 0 0 \<and> x = Fin 0 0"
    using zero_sums [OF z f] s by (simp add: cosine_sums_def)
  moreover have "js_mul (Fin 0 0) (js_sqrt y) = Fin 0 0"
    using fy by (simp add: js_mul_zero)
  ultimately have "cosine_vec a b = Fin 0 0"
    using s by (simp add: cosine_vec_def denominator_def add_zero_eps div_zero_eps)
  then show ?thesis using denominator_not_zero by simp
qed

theorem cosine_zero_vector_witness:
  "list_all is_zero [Fin 0 0, Fin 0 0]
   \<and> is_finite (js_sqrt (snd (snd (cosine_sums [Fin 0 0, Fin 0 0] [Fin 3 0, Fin 1 2]))))
   \<and> cosine_vec [Fin 0 0, Fin 0 0] [Fin 3 0, Fin 1 2] = Fin 0 0"
proof -
  have z: "list_all is_zero [Fin 0 0, Fin 0 0]" by simp
  have f: "is_finite (js_sqrt (snd (snd (cosine_sums [Fin 0 0, Fin 0 0] [Fin 3 0, Fin 1 2]))))"
    by code_simp
  from cosine_zero_vector [OF z f] z f show ?thesis by simp
qed

text \<open>
  The square of \<open>2^600\<close> overflows: for \<^verbatim>\<open>a = [0]\<close> and \<^verbatim>\<open>b = [2 ** 600]\<close> the divisor is
  \<open>0 * Infinity + 1e-9\<close>, and the result is \<open>NaN\<close>.
\<close>

theorem cosine_zero_vector_counterexample:
  "cosine_vec [Fin 0 0] [Fin 1 600] = NaN \<and> \<not> is_finite (cosine_vec [Fin 0 0] [Fin 1 600])"
proof -
  have "cosine_vec [Fin 0 0] [Fin 1 600] = NaN" by code_simp
  then show ?thesis by simp
qed

section \<open>The comparator of the sort\<close>

lemma round_quot_pos_iff: "- 1074 \<le> e \<Longrightarrow> is_pos (round_quot n 1 e) = (0 < n)"
proof (cases "0 < n")
  case True
  assume "- 1074 \<le> e"
  then show ?thesis using True by (simp add: round_quot_def round_pos_is_pos)
next
  case False
  assume e: "- 1074 \<le> e"
  show ?thesis
  proof (cases "n = 0")
    case True
    then show ?thesis by (simp add: round_quot_def)
  next
    case n: False
    then have "is_pos (round_pos (- n) 1 e)" using False e by (simp add: round_pos_is_pos)
    then have "\<not> is_pos (js_neg (round_pos (- n) 1 e))"
      by (cases "round_pos (- n) 1 e") simp_all
    then show ?thesis using False n by (simp add: round_quot_def)
  qed
qed

lemma sub_pos_iff:
  assumes "x \<noteq> NaN" "y \<noteq> NaN" "on_grid x" "on_grid y"
  shows "is_pos (js_sub y x) = js_lt x y"
proof (cases x)
  case x: (Fin m1 e1)
  show ?thesis
  proof (cases y)
    case y: (Fin m2 e2)
    have g: "- 1074 \<le> min e2 e1" using assms x y by simp
    have "is_pos (js_sub y x)
        = (0 < m2 * 2 ^ nat (e2 - min e2 e1) + - m1 * 2 ^ nat (e1 - min e2 e1))"
      unfolding x y js_sub_def by (simp add: Let_def round_quot_pos_iff [OF g])
    also have "\<dots> = fin_lt m1 e1 m2 e2"
      by (simp add: fin_lt_def Let_def min.commute)
    finally show ?thesis using x y by simp
  qed (use x assms in \<open>simp_all add: js_sub_def\<close>)
next
  case PInf
  then show ?thesis using assms by (cases y) (simp_all add: js_sub_def)
next
  case NInf
  then show ?thesis using assms by (cases y) (simp_all add: js_sub_def)
next
  case NaN
  then show ?thesis using assms by simp
qed

lemma shifted_real:
  assumes "e0 \<le> e"
  shows "real_of_int (m * 2 ^ nat (e - e0)) = real_of_int m * 2 powi e * 2 powi (- e0)"
proof -
  have "(2::real) powi (e - e0) = 2 powi e * 2 powi (- e0)"
    using power_int_add [of "2::real" e "- e0"] by simp
  moreover have "(2::real) powi (e - e0) = 2 ^ nat (e - e0)"
    using assms by (simp add: power_int_def)
  ultimately show ?thesis by simp
qed

lemma fin_lt_real:
  "fin_lt m1 e1 m2 e2 = (real_of_int m1 * 2 powi e1 < real_of_int m2 * 2 powi e2)"
proof -
  let ?e0 = "min e1 e2"
  have c: "(0::real) < 2 powi (- ?e0)" by simp
  have "fin_lt m1 e1 m2 e2
      = (real_of_int (m1 * 2 ^ nat (e1 - ?e0)) < real_of_int (m2 * 2 ^ nat (e2 - ?e0)))"
    unfolding fin_lt_def Let_def by (simp only: of_int_less_iff)
  also have "\<dots> = (real_of_int m1 * 2 powi e1 * 2 powi (- ?e0)
      < real_of_int m2 * 2 powi e2 * 2 powi (- ?e0))"
    by (simp only: shifted_real [of ?e0 e1 m1] shifted_real [of ?e0 e2 m2] min.cobounded1
        min.cobounded2)
  also have "\<dots> = (real_of_int m1 * 2 powi e1 < real_of_int m2 * 2 powi e2)"
    using c by (simp only: mult_less_cancel_right_pos)
  finally show ?thesis .
qed

lemma js_lt_asym: "js_lt x y \<Longrightarrow> \<not> js_lt y x"
  by (cases x; cases y) (simp_all add: fin_lt_real)

lemma js_ge_trans: "js_ge x y \<Longrightarrow> js_ge y z \<Longrightarrow> js_ge x z"
  unfolding js_ge_def by (cases x; cases y; cases z) (simp_all add: fin_lt_real)

lemma js_lt_ge: "js_lt x y \<Longrightarrow> js_ge y x"
  unfolding js_ge_def by (cases x; cases y) (simp_all add: fin_lt_real)

section \<open>Sorting and slicing\<close>

lemma mset_sort_insert: "mset (sort_insert cmp x ys) = add_mset x (mset ys)"
  by (induction ys) simp_all

lemma mset_js_sort: "mset (js_sort cmp xs) = mset xs"
  by (induction xs) (simp_all add: js_sort_def mset_sort_insert)

lemma set_js_sort: "set (js_sort cmp xs) = set xs"
  using mset_js_sort [of cmp xs] by (metis set_mset_mset)

lemma length_js_sort: "length (js_sort cmp xs) = length xs"
  using mset_js_sort [of cmp xs] by (metis size_mset)

lemma compare_desc_pos:
  "comparable x \<Longrightarrow> comparable y \<Longrightarrow> is_pos (compare_desc x y) = js_lt (score x) (score y)"
  by (simp add: compare_desc_def comparable_def sub_pos_iff)

lemma sorted_sort_insert:
  assumes "comparable x" and "\<forall>y\<in>set ys. comparable y" and "sorted_wrt score_ge ys"
  shows "sorted_wrt score_ge (sort_insert compare_desc x ys)"
  using assms
proof (induction ys)
  case Nil
  then show ?case by simp
next
  case (Cons y ys)
  have cy: "comparable y" using Cons.prems by simp
  show ?case
  proof (cases "js_lt (score x) (score y)")
    case True
    then have ins: "sort_insert compare_desc x (y # ys) = y # sort_insert compare_desc x ys"
      using Cons.prems(1) cy by (simp add: compare_desc_pos)
    have "score_ge y x" using True by (simp add: score_ge_def js_lt_ge)
    moreover have "\<forall>z\<in>set ys. score_ge y z" using Cons.prems(3) by simp
    moreover have "set (sort_insert compare_desc x ys) = insert x (set ys)"
      using mset_sort_insert [of compare_desc x ys] by (metis set_mset_add_mset_insert set_mset_mset)
    moreover have "sorted_wrt score_ge (sort_insert compare_desc x ys)"
      using Cons by simp
    ultimately show ?thesis unfolding ins by simp
  next
    case False
    then have ins: "sort_insert compare_desc x (y # ys) = x # y # ys"
      using Cons.prems(1) cy by (simp add: compare_desc_pos)
    have xy: "score_ge x y"
      using False Cons.prems(1) cy by (simp add: score_ge_def js_ge_def comparable_def)
    have "\<forall>z\<in>set ys. score_ge x z"
    proof
      fix z assume "z \<in> set ys"
      then have "score_ge y z" using Cons.prems(3) by simp
      then show "score_ge x z" using xy unfolding score_ge_def by (rule js_ge_trans [rotated])
    qed
    then show ?thesis unfolding ins using xy Cons.prems(3) by simp
  qed
qed

lemma sorted_js_sort:
  "\<forall>x\<in>set xs. comparable x \<Longrightarrow> sorted_wrt score_ge (js_sort compare_desc xs)"
proof (induction xs)
  case Nil
  then show ?case by (simp add: js_sort_def)
next
  case (Cons x xs)
  have "sorted_wrt score_ge (sort_insert compare_desc x (js_sort compare_desc xs))"
    by (rule sorted_sort_insert) (use Cons in \<open>simp_all add: set_js_sort\<close>)
  then show ?case by (simp add: js_sort_def)
qed

lemma slice0_take: "0 \<le> k \<Longrightarrow> slice0 xs k = take (nat k) xs"
  by (simp add: slice0_def Let_def min_def)

lemma score_all_embedded:
  "list_all (\<lambda>d. embedding d \<noteq> None) ds \<Longrightarrow>
   score_all (Some q) ds = Inr (map (\<lambda>d. \<lparr>s_doc = d, score = cosine_vec q (the (embedding d))\<rparr>) ds)"
  by (induction ds) auto

lemma cosine_vec_on_grid: "on_grid (cosine_vec a b)"
  by (simp add: cosine_vec_def js_div_on_grid split: prod.splits)

text \<open>
  C1 (amended). When every document of the corpus has an embedding and \<^verbatim>\<open>topK\<close> is not
  negative, the ranking of \<^verbatim>\<open>POST /chat\<close> returns \<open>min topK (size of the corpus)\<close> scored
  candidates, each a stored document with its cosine score against the query; they are
  the head of an ordering of the whole corpus, every document in it once with its cosine
  score, which descends by score when no score is \<open>NaN\<close>. \<^verbatim>\<open>topK = 0\<close> gives the empty list, a \<^verbatim>\<open>topK\<close> of at least the size of the
  corpus gives every document, and \<^verbatim>\<open>topK\<close> is 3 when the request does not carry it.
\<close>

theorem rank_topK:
  assumes "list_all (\<lambda>d. embedding d \<noteq> None) ds" and "0 \<le> k"
  shows "\<exists>r rest. rank ds (Some q) k = Inr r
      \<and> length r = min (nat k) (length ds)
      \<and> list_all (\<lambda>x. s_doc x \<in> set ds \<and> score x = cosine_vec q (the (embedding (s_doc x)))) r
      \<and> list_all (\<lambda>x. s_doc x \<in> set ds \<and> score x = cosine_vec q (the (embedding (s_doc x))))
            (r @ rest)
      \<and> mset (r @ rest)
          = mset (map (\<lambda>d. \<lparr>s_doc = d, score = cosine_vec q (the (embedding d))\<rparr>) ds)
      \<and> mset (map s_doc (r @ rest)) = mset ds
      \<and> (list_all (\<lambda>d. cosine_vec q (the (embedding d)) \<noteq> NaN) ds
           \<longrightarrow> sorted_wrt score_ge (r @ rest) \<and> sorted_wrt score_ge r)
      \<and> (k = 0 \<longrightarrow> r = [])
      \<and> (int (length ds) \<le> k \<longrightarrow> mset (map s_doc r) = mset ds)
      \<and> topK_of \<lparr>query = qq, topK = None\<rparr> = 3
      \<and> topK_of \<lparr>query = qq, topK = Some k\<rparr> = k"
proof -
  define al where "al = map (\<lambda>d. \<lparr>s_doc = d, score = cosine_vec q (the (embedding d))\<rparr>) ds"
  define so where "so = js_sort compare_desc al"
  define r where "r = take (nat k) so"
  define rest where "rest = drop (nat k) so"
  have rk: "rank ds (Some q) k = Inr r"
    using assms by (simp add: rank_def score_all_embedded slice0_take al_def so_def r_def)
  have len: "length so = length ds"
    by (simp add: so_def al_def length_js_sort)
  have l: "length r = min (nat k) (length ds)"
    using len by (simp add: r_def min.commute)
  have app: "r @ rest = so" by (simp add: r_def rest_def)
  have docs: "map s_doc al = ds" by (simp add: al_def comp_def)
  have "mset (map s_doc so) = mset (map s_doc al)"
    using mset_js_sort [of compare_desc al] unfolding so_def by (metis mset_map)
  then have ms: "mset (map s_doc (r @ rest)) = mset ds" using app docs by simp
  have "set r \<subseteq> set al"
    unfolding r_def so_def using set_take_subset [of "nat k" "js_sort compare_desc al"]
    by (simp add: set_js_sort)
  then have mem: "list_all (\<lambda>x. s_doc x \<in> set ds \<and> score x = cosine_vec q (the (embedding (s_doc x)))) r"
    unfolding list_all_iff al_def by auto
  have msa: "mset (r @ rest) = mset al"
    unfolding app so_def by (rule mset_js_sort)
  have "set (r @ rest) = set al"
    unfolding app so_def by (rule set_js_sort)
  then have mema: "list_all (\<lambda>x. s_doc x \<in> set ds \<and> score x = cosine_vec q (the (embedding (s_doc x))))
      (r @ rest)"
    unfolding list_all_iff al_def by auto
  have srt: "sorted_wrt score_ge (r @ rest) \<and> sorted_wrt score_ge r"
    if nn: "list_all (\<lambda>d. cosine_vec q (the (embedding d)) \<noteq> NaN) ds"
  proof -
    have "\<forall>x\<in>set al. comparable x"
      using nn unfolding al_def comparable_def list_all_iff by (auto simp: cosine_vec_on_grid)
    then have "sorted_wrt score_ge so" unfolding so_def by (rule sorted_js_sort)
    then show ?thesis using app by (metis sorted_wrt_append)
  qed
  have z: "r = []" if "k = 0" using that by (simp add: r_def)
  have full: "mset (map s_doc r) = mset ds" if "int (length ds) \<le> k"
  proof -
    have "length so \<le> nat k" using that len by simp
    then have "r = so" by (simp add: r_def)
    then show ?thesis using ms app by simp
  qed
  have t: "topK_of \<lparr>query = qq, topK = None\<rparr> = 3 \<and> topK_of \<lparr>query = qq, topK = Some k\<rparr> = k"
    by (simp add: topK_of_def)
  show ?thesis using rk l mem mema msa [unfolded al_def] ms srt z full t by blast
qed

theorem rank_topK_witness:
  "list_all (\<lambda>d. embedding d \<noteq> None) [doc_a, doc_b]
   \<and> rank [doc_a, doc_b] (Some [Fin 1 0, Fin 0 0]) 1
       = Inr [\<lparr>s_doc = doc_a, score = Fin 281474976429181 (- 48)\<rparr>]
   \<and> length [\<lparr>s_doc = doc_a, score = Fin 281474976429181 (- 48)\<rparr>] = min (nat 1) (length [doc_a, doc_b])
   \<and> sorted_wrt score_ge [\<lparr>s_doc = doc_a, score = Fin 281474976429181 (- 48)\<rparr>]"
proof -
  have e: "list_all (\<lambda>d. embedding d \<noteq> None) [doc_a, doc_b]"
    by (simp add: doc_a_def doc_b_def)
  have k: "(0::int) \<le> 1" by simp
  have v: "rank [doc_a, doc_b] (Some [Fin 1 0, Fin 0 0]) 1
      = Inr [\<lparr>s_doc = doc_a, score = Fin 281474976429181 (- 48)\<rparr>]"
    by code_simp
  from rank_topK [OF e k, of "[Fin 1 0, Fin 0 0]"]
  obtain r where r: "rank [doc_a, doc_b] (Some [Fin 1 0, Fin 0 0]) 1 = Inr r"
    and l: "length r = min (nat 1) (length [doc_a, doc_b])"
    by blast
  from r v have "r = [\<lparr>s_doc = doc_a, score = Fin 281474976429181 (- 48)\<rparr>]" by simp
  with l e v show ?thesis by simp
qed

text \<open>
  Where the claim as stated fails. A negative \<^verbatim>\<open>topK\<close> makes \<^verbatim>\<open>slice\<close> count from the end:
  \<^verbatim>\<open>topK = -1\<close> on two documents returns one candidate, not none. A document without an
  embedding makes \<^verbatim>\<open>cosine\<close> throw, and nothing is returned. And a score can be \<open>NaN\<close>
  (here \<open>Infinity / Infinity\<close>), which is not \<^verbatim>\<open>>=\<close> the score after it.
\<close>

theorem rank_topK_counterexample:
  "rank [doc_a, doc_b] (Some [Fin 1 0, Fin 0 0]) (- 1)
     = Inr [\<lparr>s_doc = doc_a, score = Fin 281474976429181 (- 48)\<rparr>]
   \<and> rank [doc_a, doc_bare] (Some [Fin 1 0, Fin 0 0]) 3 = Inl TypeError
   \<and> rank [doc_huge, doc_one] (Some [Fin 1 600]) 3
     = Inr [\<lparr>s_doc = doc_huge, score = NaN\<rparr>, \<lparr>s_doc = doc_one, score = Fin 0 0\<rparr>]
   \<and> \<not> score_ge \<lparr>s_doc = doc_huge, score = NaN\<rparr> \<lparr>s_doc = doc_one, score = Fin 0 0\<rparr>"
proof -
  have a: "rank [doc_a, doc_b] (Some [Fin 1 0, Fin 0 0]) (- 1)
      = Inr [\<lparr>s_doc = doc_a, score = Fin 281474976429181 (- 48)\<rparr>]"
    by code_simp
  have b: "rank [doc_a, doc_bare] (Some [Fin 1 0, Fin 0 0]) 3 = Inl TypeError"
    by code_simp
  have c: "rank [doc_huge, doc_one] (Some [Fin 1 600]) 3
      = Inr [\<lparr>s_doc = doc_huge, score = NaN\<rparr>, \<lparr>s_doc = doc_one, score = Fin 0 0\<rparr>]"
    by code_simp
  have d: "\<not> score_ge \<lparr>s_doc = doc_huge, score = NaN\<rparr> \<lparr>s_doc = doc_one, score = Fin 0 0\<rparr>"
    by (simp add: score_ge_def js_ge_def)
  from a b c d show ?thesis by blast
qed

end
